theory Spec2Isabelle
  imports Complex_Main "HOL-Library.AList"
begin

section \<open>Data model of \<^verbatim>\<open>src/_kafka.py\<close>\<close>

text \<open>
  The module relays records between a Kafka broker and two \<^verbatim>\<open>asyncio.Queue\<close> objects.
  Everything the relays touch lives outside the module (the queues, the broker clients,
  the clock, the logger, the shutdown events), so the embedding is state passing over a
  \<open>world\<close> that holds the mutable objects by handle, together with an \<open>env\<close> that
  answers what the outside gives back (clock readings, poll results, whether a broker
  call raises, whether a shutdown event is set).  Every completed external operation is
  appended to \<open>trace\<close>, oldest first.

  Timestamps are Python floats.  A timestamp (a clock reading, a window start) is a real,
  meant to be a finite double; what the code computes from timestamps goes through the
  model of double arithmetic below, with its rounding and its infinities.  A window start
  that is infinite or not a number is outside the model: the clock never gives one.
  Queues are modelled without a capacity bound (\<^verbatim>\<open>Queue()\<close> with the
  default \<^verbatim>\<open>maxsize=0\<close>), so a \<^verbatim>\<open>put\<close> never suspends, and the tasks that
  share the queues with the relays are not part of the model.
\<close>

subsection \<open>Python floats\<close>

text \<open>
  The values of float arithmetic on finite operands: a finite double or an infinity.
  The two zeros are one value here; they compare equal in Python and differ only in print.
\<close>

datatype pyfloat = Finite real | PInf | NInf

text \<open>Rounding to the nearest integer, ties to the even one.\<close>

definition round_half_even :: "real \<Rightarrow> int" where
  "round_half_even q =
     (let f = \<lfloor>q\<rfloor>
      in if q - of_int f < 1 / 2 then f
         else if 1 / 2 < q - of_int f then f + 1
         else if even f then f else f + 1)"

text \<open>
  IEEE 754 binary64, round to nearest, ties to even: 53 significant bits, the exponent of
  the leading bit at least \<open>-1022\<close> (below that the doubles are subnormal and evenly spaced
  by \<open>2 powi (-1074)\<close>), and a result of magnitude \<open>2 ^ 1024\<close> or more is an infinity.
\<close>

definition exponent64 :: "real \<Rightarrow> int" where
  "exponent64 x = max (- 1022) \<lfloor>log 2 \<bar>x\<bar>\<rfloor>"

definition ulp64 :: "real \<Rightarrow> real" where
  "ulp64 x = 2 powi (exponent64 x - 52)"

definition round64 :: "real \<Rightarrow> pyfloat" where
  "round64 x =
     (if x = 0 then Finite 0
      else
        let y = of_int (round_half_even (x / ulp64 x)) * ulp64 x
        in if 2 ^ 1024 \<le> \<bar>y\<bar> then (if 0 < x then PInf else NInf) else Finite y)"

text \<open>\<^verbatim>\<open>a - b\<close> on two floats.\<close>

definition float_sub :: "real \<Rightarrow> real \<Rightarrow> pyfloat" where
  "float_sub a b = round64 (a - b)"

text \<open>\<^verbatim>\<open>d < i\<close> for a float and an int: Python compares the two exactly.\<close>

fun float_lt_int :: "pyfloat \<Rightarrow> int \<Rightarrow> bool" where
  "float_lt_int (Finite r) i = (r < of_int i)"
| "float_lt_int PInf i = False"
| "float_lt_int NInf i = True"

fun float_ge_int :: "pyfloat \<Rightarrow> int \<Rightarrow> bool" where
  "float_ge_int (Finite r) i = (of_int i \<le> r)"
| "float_ge_int PInf i = True"
| "float_ge_int NInf i = False"

text \<open>
  The conversion of an int operand of \<^verbatim>\<open>/\<close> to a float: correctly rounded, and
  \<open>None\<close> for \<^verbatim>\<open>OverflowError\<close> ("int too large to convert to float").
\<close>

definition float_of_int :: "int \<Rightarrow> real option" where
  "float_of_int n = (case round64 (of_int n) of Finite y \<Rightarrow> Some y | PInf \<Rightarrow> None | NInf \<Rightarrow> None)"

text \<open>
  \<^verbatim>\<open>c / d\<close> on floats, for a finite \<open>c\<close> and a \<open>d\<close> that is not zero (the caller has
  raised \<^verbatim>\<open>ZeroDivisionError\<close> otherwise).  The division itself never raises: a
  quotient too large is an infinity.
\<close>

fun float_div :: "real \<Rightarrow> pyfloat \<Rightarrow> pyfloat" where
  "float_div c (Finite r) = round64 (c / r)"
| "float_div c PInf = Finite 0"
| "float_div c NInf = Finite 0"

subsection \<open>Records, events and the world\<close>

type_synonym topic_partition = "string \<times> nat"

text \<open>A \<^verbatim>\<open>ConsumerRecord\<close>: the relays read \<^verbatim>\<open>.value\<close>; the client tracks \<^verbatim>\<open>.offset\<close>.\<close>

record 'v consumer_record =
  offset :: nat
  val :: 'v

text \<open>The dict returned by \<^verbatim>\<open>getmany\<close>, in iteration order of \<^verbatim>\<open>batch.items()\<close>.\<close>

type_synonym 'v batch = "(topic_partition \<times> 'v consumer_record list) list"

datatype log_record =
    Partition_line topic_partition nat
  | Done_line
  | Shutdown_line
  | Speed_line string nat int pyfloat pyfloat

datatype 'v event =
    Call_log_speed int real
  | Info log_record
  | Getmany nat int
  | Put nat 'v
  | Commit nat "(topic_partition \<times> nat) list"
  | Get nat 'v
  | Send nat string 'v
  | Acknowledged nat string 'v
  | Task_done nat
  | Sleep nat

record 'v world =
  queues :: "nat \<Rightarrow> 'v list"
  positions :: "nat \<Rightarrow> (topic_partition \<times> nat) list"
  committed :: "nat \<Rightarrow> (topic_partition \<times> nat) list"
  trace :: "'v event list"
  step :: nat
  in_flight :: "nat \<Rightarrow> (string \<times> 'v) list"

record 'v env =
  time :: "nat \<Rightarrow> real"
  is_set :: "nat \<Rightarrow> nat \<Rightarrow> bool"
  poll :: "nat \<Rightarrow> nat \<Rightarrow> int \<Rightarrow> 'v batch option"
  commit_ok :: "nat \<Rightarrow> nat \<Rightarrow> bool"
  send_ok :: "nat \<Rightarrow> nat \<Rightarrow> string \<Rightarrow> 'v \<Rightarrow> bool"
  delivered :: "nat \<Rightarrow> nat \<Rightarrow> bool"

datatype error = ZeroDivisionError | OverflowError | BrokerError

text \<open>
  How a coroutine ends: it returns a value, it raises, or it stays suspended for good
  (a \<^verbatim>\<open>get\<close> on a queue nobody fills).  Each carries the world at that point.
\<close>

datatype ('a, 'v) result = Ok 'a "'v world" | Raised error "'v world" | Suspended "'v world"

section \<open>Primitives of the outside world\<close>

text \<open>\<^verbatim>\<open>time.time()\<close>: the next reading of the clock.\<close>

definition time_time :: "'v env \<Rightarrow> 'v world \<Rightarrow> real \<times> 'v world" where
  "time_time env w = (time env (step w), w\<lparr>step := Suc (step w)\<rparr>)"

text \<open>\<^verbatim>\<open>logger.info(...)\<close>.\<close>

definition logger_info :: "log_record \<Rightarrow> 'v world \<Rightarrow> 'v world" where
  "logger_info l w = w\<lparr>trace := trace w @ [Info l]\<rparr>"

text \<open>\<^verbatim>\<open>_queue.qsize()\<close>.\<close>

definition qsize :: "nat \<Rightarrow> 'v world \<Rightarrow> nat" where
  "qsize q w = length (queues w q)"

section \<open>The Speed Monitor\<close>

text \<open>
  \<^verbatim>\<open>log_speed(counter, start_time, _queue, topic, interval=60)\<close>, lines 12 to 34.
  The first event of a call records the call itself with its two state arguments.
  \<^verbatim>\<open>counter / delta_time\<close> divides an int by a float: Python first converts the int,
  which raises \<^verbatim>\<open>OverflowError\<close> when it is too large, then raises
  \<^verbatim>\<open>ZeroDivisionError\<close> on a zero denominator, then divides.
\<close>

definition log_speed ::
  "'v env \<Rightarrow> int \<Rightarrow> real \<Rightarrow> nat \<Rightarrow> string \<Rightarrow> int \<Rightarrow> 'v world \<Rightarrow> (real \<times> int, 'v) result" where
  "log_speed env counter start_time q topic interval w =
     (let w0 = w\<lparr>trace := trace w @ [Call_log_speed counter start_time]\<rparr>;
          (now, w1) = time_time env w0;
          delta_time = float_sub now start_time
      in if float_lt_int delta_time interval then Ok (start_time, counter) w1
         else
           (case float_of_int counter of
              None \<Rightarrow> Raised OverflowError w1
            | Some c \<Rightarrow>
                if delta_time = Finite 0 then Raised ZeroDivisionError w1
                else
                  let speed = float_div c delta_time;
                      w2 = logger_info (Speed_line topic (qsize q w1) counter delta_time speed) w1;
                      (now2, w3) = time_time env w2
                  in Ok (now2, 0) w3))"

text \<open>
  The elapsed time a call of \<open>log_speed\<close> made in world \<open>w\<close> computes: the next clock
  reading minus the window start, as a double.
\<close>

definition elapsed :: "'v env \<Rightarrow> 'v world \<Rightarrow> real \<Rightarrow> pyfloat" where
  "elapsed env w start_time = float_sub (time env (step w)) start_time"

text \<open>The throughput lines a trace contains, as (elapsed, speed) pairs.\<close>

fun speed_lines :: "'v event list \<Rightarrow> (pyfloat \<times> pyfloat) list" where
  "speed_lines [] = []"
| "speed_lines (Info (Speed_line t n c d s) # es) = (d, s) # speed_lines es"
| "speed_lines (e # es) = speed_lines es"

section \<open>Queue and broker client primitives\<close>

text \<open>\<^verbatim>\<open>await queue.put(x)\<close> on a queue without a capacity bound.\<close>

definition queue_put :: "nat \<Rightarrow> 'v \<Rightarrow> 'v world \<Rightarrow> 'v world" where
  "queue_put q x w =
     w\<lparr>queues := (queues w)(q := queues w q @ [x]), trace := trace w @ [Put q x]\<rparr>"

text \<open>
  \<^verbatim>\<open>await asyncio.gather(*[queue.put(x) for x in xs])\<close>: the puts are started in list
  order and none of them suspends, so they complete in list order; \<^verbatim>\<open>gather\<close>
  returns when the last one has.
\<close>

fun gather_put :: "nat \<Rightarrow> 'v list \<Rightarrow> 'v world \<Rightarrow> 'v world" where
  "gather_put q [] w = w"
| "gather_put q (x # xs) w = gather_put q xs (queue_put q x w)"

text \<open>\<^verbatim>\<open>queue.empty()\<close>.\<close>

definition queue_empty :: "nat \<Rightarrow> 'v world \<Rightarrow> bool" where
  "queue_empty q w = (queues w q = [])"

text \<open>\<^verbatim>\<open>await queue.get()\<close>: \<open>None\<close> when the queue is empty and the call suspends.\<close>

definition queue_get :: "nat \<Rightarrow> 'v world \<Rightarrow> ('v \<times> 'v world) option" where
  "queue_get q w =
     (case queues w q of
        [] \<Rightarrow> None
      | x # xs \<Rightarrow> Some (x, w\<lparr>queues := (queues w)(q := xs), trace := trace w @ [Get q x]\<rparr>))"

text \<open>
  \<^verbatim>\<open>queue.task_done()\<close>.  The count of unfinished tasks is not modelled: every item a
  relay takes out was put in before, so the call made after a \<^verbatim>\<open>get\<close> does not raise.
\<close>

definition queue_task_done :: "nat \<Rightarrow> 'v world \<Rightarrow> 'v world" where
  "queue_task_done q w = w\<lparr>trace := trace w @ [Task_done q]\<rparr>"

text \<open>\<^verbatim>\<open>await asyncio.sleep(n)\<close>.\<close>

definition sleep :: "nat \<Rightarrow> 'v world \<Rightarrow> 'v world" where
  "sleep n w = w\<lparr>trace := trace w @ [Sleep n], step := Suc (step w)\<rparr>"

text \<open>
  Modelled from the spec: the broker client is the \<^verbatim>\<open>aiokafka\<close> library, which is not
  part of the repository.  Its contract, as the spec gives it: a poll returns per-partition
  batches and moves the consumer's position of each returned partition to the offset after
  its last returned record; \<^verbatim>\<open>commit()\<close> without arguments records the current position
  of every partition ("commit the broker offsets up to the fetched position"); each call
  may fail, which raises.  The producer supports publish with acknowledgment: a record
  handed to it is in flight until the broker has acknowledged it, and the delivery future
  of the record resolves at that moment.  \<^verbatim>\<open>send\<close>, the call the source makes, returns
  once the client has taken the record, with the delivery future as its value; waiting
  for the acknowledgment is awaiting that future, which \<^verbatim>\<open>send_and_wait\<close> does.
\<close>

fun fetch_positions ::
  "'v batch \<Rightarrow> (topic_partition \<times> nat) list \<Rightarrow> (topic_partition \<times> nat) list" where
  "fetch_positions [] ps = ps"
| "fetch_positions ((tp, messages) # rest) ps =
     fetch_positions rest
       (if messages = [] then ps else AList.update tp (Suc (offset (last messages))) ps)"

definition consumer_getmany ::
  "'v env \<Rightarrow> nat \<Rightarrow> int \<Rightarrow> 'v world \<Rightarrow> ('v batch, 'v) result" where
  "consumer_getmany env c max_records w =
     (let w' = w\<lparr>step := Suc (step w)\<rparr>
      in case poll env (step w) c max_records of
           None \<Rightarrow> Raised BrokerError w'
         | Some batch \<Rightarrow>
             Ok batch (w'\<lparr>positions := (positions w)(c := fetch_positions batch (positions w c)),
                          trace := trace w @ [Getmany c max_records]\<rparr>))"

definition consumer_commit :: "'v env \<Rightarrow> nat \<Rightarrow> 'v world \<Rightarrow> (unit, 'v) result" where
  "consumer_commit env c w =
     (let w' = w\<lparr>step := Suc (step w)\<rparr>
      in if commit_ok env (step w) c
         then Ok () (w'\<lparr>committed := (committed w)(c := positions w c),
                        trace := trace w @ [Commit c (positions w c)]\<rparr>)
         else Raised BrokerError w')"

text \<open>\<^verbatim>\<open>await producer.send(topic, value=x)\<close>; the delivery future is the record it is for.\<close>

definition producer_send ::
  "'v env \<Rightarrow> nat \<Rightarrow> string \<Rightarrow> 'v \<Rightarrow> 'v world \<Rightarrow> (string \<times> 'v, 'v) result" where
  "producer_send env p topic x w =
     (let w' = w\<lparr>step := Suc (step w)\<rparr>
      in if send_ok env (step w) p topic x
         then Ok (topic, x)
                (w'\<lparr>in_flight := (in_flight w)(p := in_flight w p @ [(topic, x)]),
                    trace := trace w @ [Send p topic x]\<rparr>)
         else Raised BrokerError w')"

text \<open>Awaiting a delivery future.  No function of the module does this.\<close>

definition await_delivery ::
  "'v env \<Rightarrow> nat \<Rightarrow> string \<times> 'v \<Rightarrow> 'v world \<Rightarrow> (unit, 'v) result" where
  "await_delivery env p fut w =
     (let w' = w\<lparr>step := Suc (step w)\<rparr>
      in if delivered env (step w) p
         then Ok () (w'\<lparr>in_flight := (in_flight w)(p := remove1 fut (in_flight w p)),
                        trace := trace w @ [Acknowledged p (fst fut) (snd fut)]\<rparr>)
         else Raised BrokerError w')"

text \<open>\<^verbatim>\<open>await producer.send_and_wait(topic, value=x)\<close>.\<close>

definition producer_send_and_wait ::
  "'v env \<Rightarrow> nat \<Rightarrow> string \<Rightarrow> 'v \<Rightarrow> 'v world \<Rightarrow> (unit, 'v) result" where
  "producer_send_and_wait env p topic x w =
     (case producer_send env p topic x w of
        Ok fut w1 \<Rightarrow> await_delivery env p fut w1
      | Raised e w1 \<Rightarrow> Raised e w1
      | Suspended w1 \<Rightarrow> Suspended w1)"

section \<open>The inbound relay\<close>

text \<open>
  The \<^verbatim>\<open>for tp, messages in batch.items()\<close> loop of \<^verbatim>\<open>receive_messages\<close>,
  lines 67 to 71.
\<close>

fun receive_batch ::
  "'v env \<Rightarrow> nat \<Rightarrow> nat \<Rightarrow> 'v batch \<Rightarrow> 'v world \<Rightarrow> (unit, 'v) result" where
  "receive_batch env c rq [] w = Ok () w"
| "receive_batch env c rq ((tp, messages) # rest) w =
     (let w1 = logger_info (Partition_line tp (length messages)) w;
          w2 = gather_put rq (map val messages) w1;
          w3 = logger_info Done_line w2
      in case consumer_commit env c w3 of
           Ok u w4 \<Rightarrow> receive_batch env c rq rest w4
         | Raised e w4 \<Rightarrow> Raised e w4
         | Suspended w4 \<Rightarrow> Suspended w4)"

text \<open>One iteration of the \<^verbatim>\<open>while\<close> loop of \<^verbatim>\<open>receive_messages\<close>, lines 66 to 71.\<close>

definition receive_cycle ::
  "'v env \<Rightarrow> nat \<Rightarrow> nat \<Rightarrow> int \<Rightarrow> 'v world \<Rightarrow> (unit, 'v) result" where
  "receive_cycle env c rq batch_size w =
     (case consumer_getmany env c batch_size w of
        Ok batch w1 \<Rightarrow> receive_batch env c rq batch w1
      | Raised e w1 \<Rightarrow> Raised e w1
      | Suspended w1 \<Rightarrow> Suspended w1)"

text \<open>
  \<^verbatim>\<open>receive_messages(consumer, receive_queue, shutdown_event, batch_size)\<close>, lines 59
  to 73.  The loop runs until the shutdown event is seen set, which may be never: the
  first argument bounds the number of iterations, and \<open>None\<close> means that the bound was
  reached with the loop still running.
\<close>

fun receive_messages ::
  "nat \<Rightarrow> 'v env \<Rightarrow> nat \<Rightarrow> nat \<Rightarrow> nat \<Rightarrow> int \<Rightarrow> 'v world \<Rightarrow> (unit, 'v) result option" where
  "receive_messages 0 env c rq ev batch_size w = None"
| "receive_messages (Suc fuel) env c rq ev batch_size w =
     (if is_set env ev (step w) then Some (Ok () (logger_info Shutdown_line w))
      else case receive_cycle env c rq batch_size w of
             Ok u w' \<Rightarrow> receive_messages fuel env c rq ev batch_size w'
           | Raised e w' \<Rightarrow> Some (Raised e w')
           | Suspended w' \<Rightarrow> Some (Suspended w'))"

section \<open>The outbound relay\<close>

text \<open>
  One iteration of the \<^verbatim>\<open>while\<close> loop of \<^verbatim>\<open>send_messages\<close>, lines 86 to 100, on
  the loop state \<open>(start_time, messages_sent)\<close>.  \<open>log_speed\<close> is called with its default
  interval of 60.
\<close>

definition send_cycle ::
  "'v env \<Rightarrow> string \<Rightarrow> nat \<Rightarrow> nat \<Rightarrow> real \<times> int \<Rightarrow> 'v world \<Rightarrow> (real \<times> int, 'v) result" where
  "send_cycle env topic p sq st w =
     (case log_speed env (snd st) (fst st) sq topic 60 w of
        Raised e w1 \<Rightarrow> Raised e w1
      | Suspended w1 \<Rightarrow> Suspended w1
      | Ok st1 w1 \<Rightarrow>
          if queue_empty sq w1 then Ok st1 (sleep 1 w1)
          else
            (case queue_get sq w1 of
               None \<Rightarrow> Suspended w1
             | Some (message, w2) \<Rightarrow>
                 (case producer_send env p topic message w2 of
                    Raised e w3 \<Rightarrow> Raised e w3
                  | Suspended w3 \<Rightarrow> Suspended w3
                  | Ok u w3 \<Rightarrow> Ok (fst st1, snd st1 + 1) (queue_task_done sq w3))))"

text \<open>The \<^verbatim>\<open>while not shutdown_event.is_set()\<close> loop of \<^verbatim>\<open>send_messages\<close>.\<close>

fun send_loop ::
  "nat \<Rightarrow> 'v env \<Rightarrow> string \<Rightarrow> nat \<Rightarrow> nat \<Rightarrow> nat \<Rightarrow> real \<times> int \<Rightarrow> 'v world
     \<Rightarrow> (unit, 'v) result option" where
  "send_loop 0 env topic p sq ev st w = None"
| "send_loop (Suc fuel) env topic p sq ev st w =
     (if is_set env ev (step w) then Some (Ok () (logger_info Shutdown_line w))
      else case send_cycle env topic p sq st w of
             Ok st' w' \<Rightarrow> send_loop fuel env topic p sq ev st' w'
           | Raised e w' \<Rightarrow> Some (Raised e w')
           | Suspended w' \<Rightarrow> Some (Suspended w'))"

text \<open>
  \<^verbatim>\<open>send_messages(topic, producer, send_queue, shutdown_event)\<close>, lines 76 to 102:
  \<^verbatim>\<open>start_time = time.time()\<close>, \<^verbatim>\<open>messages_sent = 0\<close>, then the loop.
\<close>

definition send_messages ::
  "nat \<Rightarrow> 'v env \<Rightarrow> string \<Rightarrow> nat \<Rightarrow> nat \<Rightarrow> nat \<Rightarrow> 'v world \<Rightarrow> (unit, 'v) result option" where
  "send_messages fuel env topic p sq ev w =
     (let (start_time, w0) = time_time env w;
          messages_sent = 0
      in send_loop fuel env topic p sq ev (start_time, messages_sent) w0)"

section \<open>The engine\<close>

text \<open>
  \<^verbatim>\<open>AioKafkaEngine\<close>: the four handles stored by \<^verbatim>\<open>__init__\<close>.  The class also
  carries a copy of the Speed Monitor under the name \<^verbatim>\<open>_log_speed\<close> (lines 118 to 140);
  no method calls it, \<^verbatim>\<open>produce_messages\<close> uses the module-level \<^verbatim>\<open>log_speed\<close>.
  \<^verbatim>\<open>start\<close> only creates the two tasks.
\<close>

record engine =
  receive_queue :: nat
  send_queue :: nat
  producer :: nat
  consumer :: nat

text \<open>One iteration of the loop of \<^verbatim>\<open>produce_messages\<close>, lines 147 to 161.\<close>

definition produce_cycle ::
  "'v env \<Rightarrow> engine \<Rightarrow> string \<Rightarrow> real \<times> int \<Rightarrow> 'v world \<Rightarrow> (real \<times> int, 'v) result" where
  "produce_cycle env self topic st w =
     (case log_speed env (snd st) (fst st) (send_queue self) topic 60 w of
        Raised e w1 \<Rightarrow> Raised e w1
      | Suspended w1 \<Rightarrow> Suspended w1
      | Ok st1 w1 \<Rightarrow>
          if queue_empty (send_queue self) w1 then Ok st1 (sleep 1 w1)
          else
            (case queue_get (send_queue self) w1 of
               None \<Rightarrow> Suspended w1
             | Some (message, w2) \<Rightarrow>
                 (case producer_send env (producer self) topic message w2 of
                    Raised e w3 \<Rightarrow> Raised e w3
                  | Suspended w3 \<Rightarrow> Suspended w3
                  | Ok u w3 \<Rightarrow>
                      Ok (fst st1, snd st1 + 1) (queue_task_done (send_queue self) w3))))"

fun produce_loop ::
  "nat \<Rightarrow> 'v env \<Rightarrow> engine \<Rightarrow> nat \<Rightarrow> string \<Rightarrow> real \<times> int \<Rightarrow> 'v world
     \<Rightarrow> (unit, 'v) result option" where
  "produce_loop 0 env self ev topic st w = None"
| "produce_loop (Suc fuel) env self ev topic st w =
     (if is_set env ev (step w) then Some (Ok () (logger_info Shutdown_line w))
      else case produce_cycle env self topic st w of
             Ok st' w' \<Rightarrow> produce_loop fuel env self ev topic st' w'
           | Raised e w' \<Rightarrow> Some (Raised e w')
           | Suspended w' \<Rightarrow> Some (Suspended w'))"

text \<open>\<^verbatim>\<open>AioKafkaEngine.produce_messages(self, shutdown_event, topic)\<close>, lines 142 to 163.\<close>

definition produce_messages ::
  "nat \<Rightarrow> 'v env \<Rightarrow> engine \<Rightarrow> nat \<Rightarrow> string \<Rightarrow> 'v world \<Rightarrow> (unit, 'v) result option" where
  "produce_messages fuel env self ev topic w =
     (let (start_time, w0) = time_time env w;
          messages_sent = 0
      in produce_loop fuel env self ev topic (start_time, messages_sent) w0)"

text \<open>
  The \<^verbatim>\<open>for\<close> loop of \<^verbatim>\<open>consume_messages\<close>, lines 168 to 173: the partition line is
  logged after the commit, and there is no \<^verbatim>\<open>"done"\<close> line.
\<close>

fun consume_batch :: "'v env \<Rightarrow> engine \<Rightarrow> 'v batch \<Rightarrow> 'v world \<Rightarrow> (unit, 'v) result" where
  "consume_batch env self [] w = Ok () w"
| "consume_batch env self ((tp, messages) # rest) w =
     (let w1 = gather_put (receive_queue self) (map val messages) w
      in case consumer_commit env (consumer self) w1 of
           Ok u w2 \<Rightarrow>
             consume_batch env self rest (logger_info (Partition_line tp (length messages)) w2)
         | Raised e w2 \<Rightarrow> Raised e w2
         | Suspended w2 \<Rightarrow> Suspended w2)"

definition consume_cycle :: "'v env \<Rightarrow> engine \<Rightarrow> int \<Rightarrow> 'v world \<Rightarrow> (unit, 'v) result" where
  "consume_cycle env self batch_size w =
     (case consumer_getmany env (consumer self) batch_size w of
        Ok batch w1 \<Rightarrow> consume_batch env self batch w1
      | Raised e w1 \<Rightarrow> Raised e w1
      | Suspended w1 \<Rightarrow> Suspended w1)"

text \<open>\<^verbatim>\<open>AioKafkaEngine.consume_messages(self, shutdown_event, batch_size)\<close>, lines 165 to 174.\<close>

fun consume_messages ::
  "nat \<Rightarrow> 'v env \<Rightarrow> engine \<Rightarrow> nat \<Rightarrow> int \<Rightarrow> 'v world \<Rightarrow> (unit, 'v) result option" where
  "consume_messages 0 env self ev batch_size w = None"
| "consume_messages (Suc fuel) env self ev batch_size w =
     (if is_set env ev (step w) then Some (Ok () (logger_info Shutdown_line w))
      else case consume_cycle env self batch_size w of
             Ok u w' \<Rightarrow> consume_messages fuel env self ev batch_size w'
           | Raised e w' \<Rightarrow> Some (Raised e w')
           | Suspended w' \<Rightarrow> Some (Suspended w'))"

section \<open>Reading traces\<close>

text \<open>The events a run from world \<open>w\<close> to world \<open>w'\<close> appended.\<close>

definition new_events :: "'v world \<Rightarrow> 'v world \<Rightarrow> 'v event list" where
  "new_events w w' = drop (length (trace w)) (trace w')"

fun is_call :: "'v event \<Rightarrow> bool" where
  "is_call (Call_log_speed c s) = True" | "is_call e = False"

fun is_info :: "'v event \<Rightarrow> bool" where
  "is_info (Info l) = True" | "is_info e = False"

fun is_put :: "'v event \<Rightarrow> bool" where
  "is_put (Put q x) = True" | "is_put e = False"

fun is_commit :: "'v event \<Rightarrow> bool" where
  "is_commit (Commit c ps) = True" | "is_commit e = False"

fun is_get :: "'v event \<Rightarrow> bool" where
  "is_get (Get q x) = True" | "is_get e = False"

fun is_send :: "'v event \<Rightarrow> bool" where
  "is_send (Send p t x) = True" | "is_send e = False"

fun is_acknowledged :: "'v event \<Rightarrow> bool" where
  "is_acknowledged (Acknowledged p t x) = True" | "is_acknowledged e = False"

fun is_task_done :: "'v event \<Rightarrow> bool" where
  "is_task_done (Task_done q) = True" | "is_task_done e = False"


text \<open>The world of a result, whichever way the coroutine ended.\<close>

fun world_of :: "('a, 'v) result \<Rightarrow> 'v world" where
  "world_of (Ok x w) = w"
| "world_of (Raised e w) = w"
| "world_of (Suspended w) = w"

text \<open>
  The spec's ordering of an inbound cycle, in its own words: "the commit must never be
  observed before all N enqueues for that batch complete".  On the events of one cycle:
  no enqueue comes after a commit.
\<close>

fun commit_after_all_enqueues :: "'v event list \<Rightarrow> bool" where
  "commit_after_all_enqueues [] = True"
| "commit_after_all_enqueues (e # es) =
     ((if is_commit e then list_all (\<lambda>x. \<not> is_put x) es else True)
      \<and> commit_after_all_enqueues es)"

text \<open>Whether committed offsets \<open>ps\<close> cover the record at \<open>off\<close> of partition \<open>tp\<close>.\<close>

definition covers :: "(topic_partition \<times> nat) list \<Rightarrow> topic_partition \<Rightarrow> nat \<Rightarrow> bool" where
  "covers ps tp off = (case map_of ps tp of None \<Rightarrow> False | Some n \<Rightarrow> off < n)"

text \<open>
  The spec's outbound cycle, in its own words: "dequeue exactly one item, publish it to
  the broker under all-replica acknowledgment durability (the call suspends until the
  broker confirms), mark the dequeue as processed, and increment the counter by one".
\<close>

definition spec_send_cycle ::
  "'v env \<Rightarrow> string \<Rightarrow> nat \<Rightarrow> nat \<Rightarrow> real \<times> int \<Rightarrow> 'v world \<Rightarrow> (real \<times> int, 'v) result" where
  "spec_send_cycle env topic p sq st w =
     (case log_speed env (snd st) (fst st) sq topic 60 w of
        Raised e w1 \<Rightarrow> Raised e w1
      | Suspended w1 \<Rightarrow> Suspended w1
      | Ok st1 w1 \<Rightarrow>
          if queue_empty sq w1 then Ok st1 (sleep 1 w1)
          else
            (case queue_get sq w1 of
               None \<Rightarrow> Suspended w1
             | Some (message, w2) \<Rightarrow>
                 (case producer_send_and_wait env p topic message w2 of
                    Raised e w3 \<Rightarrow> Raised e w3
                  | Suspended w3 \<Rightarrow> Suspended w3
                  | Ok u w3 \<Rightarrow> Ok (fst st1, snd st1 + 1) (queue_task_done sq w3))))"

text \<open>
  "A record is marked done only after the publish has completed": in the events of a
  cycle, every \<^verbatim>\<open>task_done\<close> comes after an acknowledgment received since the
  previous one (the flag says whether one has been seen).
\<close>

fun done_after_ack :: "bool \<Rightarrow> 'v event list \<Rightarrow> bool" where
  "done_after_ack acked [] = True"
| "done_after_ack acked (Task_done q # es) = (acked \<and> done_after_ack False es)"
| "done_after_ack acked (Acknowledged p t x # es) = done_after_ack True es"
| "done_after_ack acked (e # es) = done_after_ack acked es"

definition acknowledged_before_done :: "'v event list \<Rightarrow> bool" where
  "acknowledged_before_done es = done_after_ack False es"

text \<open>A world and a result with the log lines taken out of the trace.\<close>

definition without_info :: "'v world \<Rightarrow> 'v world" where
  "without_info w = w\<lparr>trace := filter (\<lambda>e. \<not> is_info e) (trace w)\<rparr>"

fun result_without_info :: "('a, 'v) result \<Rightarrow> ('a, 'v) result" where
  "result_without_info (Ok x w) = Ok x (without_info w)"
| "result_without_info (Raised e w) = Raised e (without_info w)"
| "result_without_info (Suspended w) = Suspended (without_info w)"

text \<open>
  An environment and an initial world for running the model on examples: the clock and
  the poll results are given, the shutdown events are set from step \<open>stop\<close> on, no
  broker call fails and every awaited delivery is acknowledged.  Queue 0 starts with the given items.
\<close>

definition example_env ::
  "(nat \<Rightarrow> real) \<Rightarrow> (nat \<Rightarrow> nat batch option) \<Rightarrow> nat \<Rightarrow> nat env" where
  "example_env clock polls stop =
     \<lparr>time = clock, is_set = (\<lambda>ev n. stop \<le> n), poll = (\<lambda>n c k. polls n),
      commit_ok = (\<lambda>n c. True), send_ok = (\<lambda>n p t x. True), delivered = (\<lambda>n p. True)\<rparr>"

definition two_partitions :: "nat batch" where
  "two_partitions =
     [((''reports'', 0), [\<lparr>offset = 0, val = 1\<rparr>]), ((''reports'', 1), [\<lparr>offset = 0, val = 2\<rparr>])]"

definition three_records :: "nat batch" where
  "three_records =
     [((''reports'', 0),
       [\<lparr>offset = 10, val = 4\<rparr>, \<lparr>offset = 11, val = 5\<rparr>, \<lparr>offset = 12, val = 6\<rparr>])]"

definition example_engine :: engine where
  "example_engine = \<lparr>receive_queue = 0, send_queue = 0, producer = 0, consumer = 0\<rparr>"

definition example_world :: "nat list \<Rightarrow> nat world" where
  "example_world xs =
     \<lparr>queues = (\<lambda>q. if q = 0 then xs else []), positions = (\<lambda>c. []), committed = (\<lambda>c. []),
      trace = [], step = 0, in_flight = (\<lambda>p. [])\<rparr>"

section \<open>Properties of the float model\<close>

lemma round_half_even_of_int [simp]: "round_half_even (of_int m) = m"
  by (simp add: round_half_even_def)

lemma ulp64_pos: "0 < ulp64 x"
  by (simp add: ulp64_def)

text \<open>A whole multiple of its own unit in the last place, below the overflow bound, is a double.\<close>

lemma round64_exact:
  assumes "x / ulp64 x = of_int m" and "\<bar>x\<bar> < 2 ^ 1024"
  shows "round64 x = Finite x"
proof -
  have "of_int m * ulp64 x = x"
    using assms(1) ulp64_pos[of x] by (simp add: field_simps)
  then show ?thesis
    using assms by (simp add: round64_def Let_def)
qed

lemma exponent64_int:
  assumes "n \<noteq> 0" and "\<bar>n\<bar> < 2 ^ 53"
  shows "0 \<le> exponent64 (of_int n) \<and> exponent64 (of_int n) \<le> 52"
proof -
  let ?a = "\<bar>of_int n :: real\<bar>"
  have a: "?a = of_int \<bar>n\<bar>" by simp
  have a1: "1 \<le> ?a" unfolding a using assms(1) by (simp del: of_int_abs)
  have a2: "?a < 2 ^ 53" unfolding a using assms(2) by (simp del: of_int_abs)
  have "0 \<le> log 2 ?a" using a1 by simp
  moreover have "log 2 ?a < 53"
  proof -
    have "log 2 ?a < log 2 (2 ^ 53)" using a1 a2 by (intro log_less) auto
    moreover have "log 2 (2 ^ 53) = (53::real)" using log_pow_cancel[of 2 53] by simp
    ultimately show ?thesis by simp
  qed
  ultimately have "0 \<le> \<lfloor>log 2 ?a\<rfloor> \<and> \<lfloor>log 2 ?a\<rfloor> \<le> 52"
    by (simp add: floor_less_iff le_floor_iff)
  then show ?thesis by (simp add: exponent64_def)
qed

text \<open>Every integer below \<open>2 ^ 53\<close> in magnitude is a double.\<close>

lemma round64_int:
  assumes "\<bar>n\<bar> < 2 ^ 53"
  shows "round64 (of_int n) = Finite (of_int n)"
proof (cases "n = 0")
  case True
  then show ?thesis by (simp add: round64_def)
next
  case False
  from exponent64_int[OF False assms] obtain k where
    k: "exponent64 (of_int n) = k" "0 \<le> k" "k \<le> 52" by blast
  have u: "ulp64 (of_int n) = inverse (2 ^ nat (52 - k))"
    using k by (simp add: ulp64_def power_int_def power_one_over inverse_eq_divide)
  have q: "of_int n / ulp64 (of_int n) = of_int (n * 2 ^ nat (52 - k))"
    unfolding u by (simp add: field_simps)
  have b: "\<bar>of_int n :: real\<bar> < 2 ^ 1024"
  proof -
    have "\<bar>of_int n :: real\<bar> = of_int \<bar>n\<bar>" by simp
    also have "\<dots> < 2 ^ 53" using assms by (simp del: of_int_abs)
    also have "\<dots> < 2 ^ 1024" by simp
    finally show ?thesis .
  qed
  from round64_exact[OF q b] show ?thesis .
qed

text \<open>\<open>2 ^ 1024\<close> is beyond the largest double: as an operand of \<^verbatim>\<open>/\<close> it overflows.\<close>

lemma float_of_int_overflow: "float_of_int (2 ^ 1024) = None"
proof -
  have "log 2 (2 ^ 1024) = (1024::real)" using log_pow_cancel[of 2 1024] by simp
  then have "\<lfloor>log 2 \<bar>2 ^ 1024 :: real\<bar>\<rfloor> = 1024" by simp
  then have u: "ulp64 (2 ^ 1024) = 2 ^ 972" by (simp add: ulp64_def exponent64_def)
  have "(2::real) ^ 1024 / 2 ^ 972 = of_int (2 ^ 52)" by simp
  then have r: "round_half_even ((2::real) ^ 1024 / 2 ^ 972) = 2 ^ 52"
    by (simp only: round_half_even_of_int)
  have "round64 (2 ^ 1024) = PInf"
    unfolding round64_def u Let_def r by simp
  then show ?thesis by (simp add: float_of_int_def)
qed

text \<open>
  A subtraction that rounds: sixty seconds on the clock less a window start of
  \<open>1 / 2 ^ 60\<close> is sixty seconds as a double.
\<close>

lemma float_sub_rounds: "float_sub 60 (1 / 2 ^ 60) = Finite 60"
proof -
  let ?x = "60 - 1 / 2 ^ 60 :: real"
  have "\<lfloor>log 2 \<bar>?x\<bar>\<rfloor> = 5"
    by (subst floor_log_eq_powr_iff) (simp_all add: powr_numeral)
  then have u: "ulp64 ?x = 1 / 2 ^ 47"
    by (simp add: ulp64_def exponent64_def power_int_def power_one_over)
  have f: "\<lfloor>?x / (1 / 2 ^ 47)\<rfloor> = 60 * 2 ^ 47 - 1"
    by (simp add: floor_eq_iff)
  have r: "round_half_even (?x / (1 / 2 ^ 47)) = 60 * 2 ^ 47"
    unfolding round_half_even_def f Let_def by simp
  show ?thesis
    unfolding float_sub_def round64_def u Let_def r by simp
qed

lemma float_not_lt_ge: "\<not> float_lt_int d i \<Longrightarrow> float_ge_int d i"
  by (cases d) simp_all

lemma float_ge_pos_nonzero: "0 < i \<Longrightarrow> float_ge_int d i \<Longrightarrow> d \<noteq> Finite 0"
  by (cases d) auto

section \<open>Properties of the Speed Monitor\<close>

lemma speed_lines_append: "speed_lines (xs @ ys) = speed_lines xs @ speed_lines ys"
  by (induction xs rule: speed_lines.induct) simp_all

lemma new_events_append [simp]: "trace w' = trace w @ es \<Longrightarrow> new_events w w' = es"
  by (simp add: new_events_def)

text \<open>
  Claim C3.  While the elapsed time since the window start, as the call computes it, is
  below the interval, \<open>log_speed\<close> returns exactly the pair it was given, logs nothing and
  leaves the queues alone; called again with that pair inside the same window it returns
  it again.
\<close>

theorem log_speed_noop_within_window:
  assumes "float_lt_int (elapsed env w start_time) interval"
  shows "\<exists>w1. log_speed env counter start_time q topic interval w = Ok (start_time, counter) w1
           \<and> queues w1 = queues w
           \<and> trace w1 = trace w @ [Call_log_speed counter start_time]
           \<and> (if float_lt_int (elapsed env w1 start_time) interval
              then \<exists>w2. log_speed env counter start_time q topic interval w1
                           = Ok (start_time, counter) w2
              else True)"
  using assms
  by (simp add: log_speed_def time_time_def elapsed_def Let_def)

theorem log_speed_noop_within_window_witness:
  "float_lt_int (elapsed (example_env (\<lambda>n. 130 + real n) (\<lambda>n. None) 9) (example_world [7]) 100) 60
   \<and> (\<exists>w1. log_speed (example_env (\<lambda>n. 130 + real n) (\<lambda>n. None) 9) 5 100 0 ''reports'' 60
                (example_world [7]) = Ok (100, 5) w1
           \<and> queues w1 = queues (example_world [7])
           \<and> trace w1 = trace (example_world [7]) @ [Call_log_speed 5 100]
           \<and> (if float_lt_int (elapsed (example_env (\<lambda>n. 130 + real n) (\<lambda>n. None) 9) w1 100) 60
              then \<exists>w2. log_speed (example_env (\<lambda>n. 130 + real n) (\<lambda>n. None) 9) 5 100 0
                           ''reports'' 60 w1 = Ok (100, 5) w2
              else True))"
proof -
  have h: "float_lt_int (elapsed (example_env (\<lambda>n. 130 + real n) (\<lambda>n. None) 9)
                           (example_world [7]) 100) 60"
    using round64_int[of 30]
    by (simp add: elapsed_def float_sub_def example_env_def example_world_def)
  from log_speed_noop_within_window[OF h, of 5 0 "''reports''"] h show ?thesis
    by simp
qed

text \<open>
  Claim C5.  With a positive interval \<open>log_speed\<close> never divides by zero.  Before the
  elapsed time has reached the interval it returns without computing a throughput.  It
  divides only when the elapsed time is at least the interval, so the denominator is at
  least the interval and not zero; the one way the division can then fail is a counter
  too large to convert to a float.
\<close>

theorem log_speed_division_guarded:
  assumes "0 < interval"
  shows "case log_speed env counter start_time q topic interval w of
           Ok r w' \<Rightarrow>
             (if float_lt_int (elapsed env w start_time) interval
              then speed_lines (new_events w w') = []
              else float_ge_int (elapsed env w start_time) interval
                   \<and> elapsed env w start_time \<noteq> Finite 0
                   \<and> (\<exists>c. float_of_int counter = Some c
                          \<and> speed_lines (new_events w w')
                              = [(elapsed env w start_time,
                                  float_div c (elapsed env w start_time))]))
         | Raised e w' \<Rightarrow>
             e = OverflowError \<and> float_of_int counter = None
             \<and> float_ge_int (elapsed env w start_time) interval
             \<and> speed_lines (new_events w w') = []
         | Suspended w' \<Rightarrow> False"
proof (cases "float_lt_int (elapsed env w start_time) interval")
  case True
  then show ?thesis
    by (simp add: log_speed_def time_time_def elapsed_def Let_def)
next
  case False
  then have g: "float_ge_int (elapsed env w start_time) interval"
    by (rule float_not_lt_ge)
  with assms have z: "elapsed env w start_time \<noteq> Finite 0"
    by (rule float_ge_pos_nonzero)
  from False g z show ?thesis
    by (simp add: log_speed_def time_time_def elapsed_def Let_def logger_info_def
          split: option.split)
qed

theorem log_speed_division_guarded_witness:
  "(0::int) < 60
   \<and> (\<exists>w'. log_speed (example_env (\<lambda>n. 200 + real n) (\<lambda>n. None) 9) 300 100 0 ''reports'' 60
              (example_world [7]) = Ok (201, 0) w'
          \<and> speed_lines (new_events (example_world [7]) w') = [(Finite 100, Finite 3)])"
proof -
  let ?E = "example_env (\<lambda>n. 200 + real n) (\<lambda>n. None) 9"
  let ?W = "example_world [7]"
  have e: "elapsed ?E ?W 100 = Finite 100"
    using round64_int[of 100]
    by (simp add: elapsed_def float_sub_def example_env_def example_world_def)
  have c: "float_of_int 300 = Some 300"
    using round64_int[of 300] by (simp add: float_of_int_def)
  have d: "round64 3 = Finite 3"
    using round64_int[of 3] by simp
  obtain w' where r: "log_speed ?E 300 100 0 ''reports'' 60 ?W = Ok (201, 0) w'"
    using e c d
    by (simp add: log_speed_def time_time_def elapsed_def Let_def logger_info_def
          example_env_def example_world_def)
  from log_speed_division_guarded[where interval = 60 and env = ?E and counter = 300
         and start_time = 100 and q = 0 and topic = "''reports''" and w = ?W]
  have "speed_lines (new_events ?W w') = [(Finite 100, Finite 3)]"
    by (simp add: r e c d)
  with r show ?thesis by simp
qed

text \<open>
  Claim C10.  \<open>log_speed\<close> never changes a queue (nor the consumer positions or the
  records in flight): the only events it adds are its own call and log lines.  When it
  returns, the pair is either the input pair or the second clock reading with a zero
  counter.  It returns unless the division raises: on a zero elapsed time, which needs a
  non-positive interval, or on a counter too large to convert to a float.
\<close>

theorem log_speed_frame:
  "case log_speed env counter start_time q topic interval w of
     Ok r w' \<Rightarrow>
       queues w' = queues w \<and> positions w' = positions w \<and> committed w' = committed w
       \<and> in_flight w' = in_flight w
       \<and> list_all (\<lambda>e. is_call e \<or> is_info e) (new_events w w')
       \<and> (r = (start_time, counter) \<or> r = (time env (Suc (step w)), 0))
   | Raised e w' \<Rightarrow>
       queues w' = queues w \<and> positions w' = positions w \<and> committed w' = committed w
       \<and> in_flight w' = in_flight w
       \<and> list_all (\<lambda>e. is_call e \<or> is_info e) (new_events w w')
       \<and> (e = ZeroDivisionError \<and> interval \<le> 0 \<and> elapsed env w start_time = Finite 0
           \<or> e = OverflowError \<and> float_of_int counter = None)
   | Suspended w' \<Rightarrow> False"
  by (auto simp: log_speed_def time_time_def elapsed_def Let_def logger_info_def
        split: option.split)

text \<open>
  Two runs where the float arithmetic decides.  A window start of \<open>1 / 2 ^ 60\<close> and a
  clock at sixty seconds: the elapsed time rounds to sixty, so the call logs and resets.
  A counter of \<open>2 ^ 1024\<close> after a full interval: the call raises.
\<close>

lemma log_speed_rounded_elapsed:
  "\<exists>w'. log_speed (example_env (\<lambda>n. 60 + real n) (\<lambda>n. None) 9) 0 (1 / 2 ^ 60) 0 ''reports'' 60
           (example_world []) = Ok (61, 0) w'"
  using float_sub_rounds round64_int[of 0]
  by (simp add: log_speed_def time_time_def Let_def logger_info_def float_of_int_def
        example_env_def example_world_def)

lemma log_speed_counter_overflow:
  "\<exists>w'. log_speed (example_env (\<lambda>n. 200 + real n) (\<lambda>n. None) 9) (2 ^ 1024) 100 0 ''reports'' 60
           (example_world []) = Raised OverflowError w'"
proof -
  have "float_sub 200 100 = Finite 100"
    using round64_int[of 100] by (simp add: float_sub_def)
  then show ?thesis
    using float_of_int_overflow
    by (simp add: log_speed_def time_time_def Let_def example_env_def example_world_def
          del: power_numeral)
qed

section \<open>Properties of the inbound relay\<close>

lemma gather_put_eq:
  "gather_put q xs w =
     w\<lparr>queues := (queues w)(q := queues w q @ xs), trace := trace w @ map (Put q) xs\<rparr>"
  by (induction xs arbitrary: w) (simp_all add: queue_put_def)

lemma getmany_ok:
  "poll env (step w) c k = Some batch \<Longrightarrow>
   consumer_getmany env c k w =
     Ok batch (w\<lparr>step := Suc (step w),
                 positions := (positions w)(c := fetch_positions batch (positions w c)),
                 trace := trace w @ [Getmany c k]\<rparr>)"
  by (simp add: consumer_getmany_def Let_def)

text \<open>What a run of the partition loop that returns has done.\<close>

lemma receive_batch_ok:
  "receive_batch env c rq batch w = Ok u w' \<Longrightarrow>
     trace w' = trace w @ concat (map (\<lambda>(tp, ms).
         Info (Partition_line tp (length ms)) # map (\<lambda>m. Put rq (val m)) ms
           @ [Info Done_line, Commit c (positions w c)]) batch)
     \<and> queues w' = (queues w)(rq := queues w rq @ concat (map (\<lambda>(tp, ms). map val ms) batch))
     \<and> positions w' = positions w
     \<and> committed w' = (if batch = [] then committed w else (committed w)(c := positions w c))
     \<and> step w' = step w + length batch"
proof (induction batch arbitrary: w)
  case Nil
  then show ?case by simp
next
  case (Cons a batch)
  obtain tp ms where a: "a = (tp, ms)" by (cases a)
  let ?w3 = "logger_info Done_line
               (gather_put rq (map val ms) (logger_info (Partition_line tp (length ms)) w))"
  from Cons.prems a obtain w4 where
    c: "consumer_commit env c ?w3 = Ok () w4" and r: "receive_batch env c rq batch w4 = Ok u w'"
    by (auto simp: Let_def split: result.splits)
  from c have w4:
    "w4 = ?w3\<lparr>step := Suc (step ?w3), committed := (committed ?w3)(c := positions ?w3 c),
              trace := trace ?w3 @ [Commit c (positions ?w3 c)]\<rparr>"
    by (auto simp: consumer_commit_def Let_def split: if_splits)
  from Cons.IH[OF r] show ?case
    unfolding w4 a
    by (auto simp: gather_put_eq logger_info_def comp_def)
qed

text \<open>Whichever way the partition loop ends, it only logs, enqueues and commits.\<close>

lemma receive_batch_events:
  "\<exists>es. trace (world_of (receive_batch env c rq batch w)) = trace w @ es
        \<and> list_all (\<lambda>e. is_info e \<or> is_put e \<or> is_commit e) es"
proof (induction batch arbitrary: w)
  case Nil
  then show ?case by simp
next
  case (Cons a batch)
  obtain tp ms where a: "a = (tp, ms)" by (cases a)
  let ?w3 = "logger_info Done_line
               (gather_put rq (map val ms) (logger_info (Partition_line tp (length ms)) w))"
  have t3: "trace ?w3 = trace w @ Info (Partition_line tp (length ms)) # map (Put rq) (map val ms)
                          @ [Info Done_line]"
    by (simp add: gather_put_eq logger_info_def)
  show ?case
  proof (cases "commit_ok env (step ?w3) c")
    case False
    then show ?thesis unfolding a
      by (simp add: Let_def consumer_commit_def gather_put_eq logger_info_def list_all_iff)
  next
    case True
    let ?w4 = "?w3\<lparr>step := Suc (step ?w3), committed := (committed ?w3)(c := positions ?w3 c),
                    trace := trace ?w3 @ [Commit c (positions ?w3 c)]\<rparr>"
    from True have c: "consumer_commit env c ?w3 = Ok () ?w4"
      by (simp add: consumer_commit_def Let_def)
    from Cons.IH[of ?w4] obtain es where
      es: "trace (world_of (receive_batch env c rq batch ?w4)) = trace ?w4 @ es"
          "list_all (\<lambda>e. is_info e \<or> is_put e \<or> is_commit e) es" by blast
    have "receive_batch env c rq (a # batch) w = receive_batch env c rq batch ?w4"
      unfolding a using c by (simp add: Let_def)
    with es t3 show ?thesis
      by (simp add: list_all_iff) auto
  qed
qed

lemma filter_concat_parts:
  "filter (\<lambda>e. is_put e \<or> is_commit e)
     (concat (map (\<lambda>(tp, ms). Info (Partition_line tp (length ms)) # map (\<lambda>m. Put rq (val m)) ms
           @ [Info Done_line, Commit c ps]) batch))
   = concat (map (\<lambda>(tp, ms). map (\<lambda>m. Put rq (val m)) ms @ [Commit c ps]) batch)"
  by (induction batch) (auto simp: filter_map comp_def)

lemma commit_after_all_enqueues_puts:
  "commit_after_all_enqueues (map (\<lambda>m. Put rq (val m)) ms @ es) = commit_after_all_enqueues es"
  by (induction ms) simp_all

text \<open>
  Claim C1, as stated, fails.  A poll that returns one record on each of two partitions:
  the relay commits at the end of the first partition's iteration, before the second
  partition's record is enqueued, and that commit (the consumer's positions after the
  poll) already covers offset 0 of the second partition.
\<close>

theorem receive_cycle_commit_before_enqueue:
  "filter (\<lambda>e. is_put e \<or> is_commit e)
     (new_events (example_world [])
        (world_of (receive_cycle (example_env (\<lambda>n. 0) (\<lambda>n. Some two_partitions) 9) 0 0 200
                     (example_world []))))
   = [Put 0 1, Commit 0 [((''reports'', 0), 1), ((''reports'', 1), 1)],
      Put 0 2, Commit 0 [((''reports'', 0), 1), ((''reports'', 1), 1)]]
   \<and> covers [((''reports'', 0), 1), ((''reports'', 1), 1)] (''reports'', 1) 0
   \<and> \<not> commit_after_all_enqueues
        (new_events (example_world [])
           (world_of (receive_cycle (example_env (\<lambda>n. 0) (\<lambda>n. Some two_partitions) 9) 0 0 200
                        (example_world []))))"
  by (simp add: receive_cycle_def consumer_getmany_def consumer_commit_def example_env_def
        example_world_def two_partitions_def Let_def logger_info_def queue_put_def
        new_events_def covers_def)

text \<open>
  Claim C1, amended.  In a cycle that completes, the relay goes through the partitions of
  the batch in order and, for each one, enqueues all of its record values and then issues
  one commit call: every record is enqueued before the commit call of its own partition's
  iteration, and the cycle's last commit comes after all enqueues.  When the batch has at
  most one partition, no commit is observed before all enqueues of the batch.
\<close>

theorem receive_cycle_commit_per_partition:
  assumes "poll env (step w) c batch_size = Some batch"
      and "receive_cycle env c rq batch_size w = Ok u w'"
  shows "filter (\<lambda>e. is_put e \<or> is_commit e) (new_events w w') =
           concat (map (\<lambda>(tp, ms). map (\<lambda>m. Put rq (val m)) ms
                          @ [Commit c (fetch_positions batch (positions w c))]) batch)
         \<and> (if length batch \<le> 1 then commit_after_all_enqueues (new_events w w') else True)"
proof -
  let ?w1 = "w\<lparr>step := Suc (step w),
                 positions := (positions w)(c := fetch_positions batch (positions w c)),
                 trace := trace w @ [Getmany c batch_size]\<rparr>"
  let ?ps = "fetch_positions batch (positions w c)"
  from assms have r: "receive_batch env c rq batch ?w1 = Ok u w'"
    by (simp add: receive_cycle_def getmany_ok)
  from receive_batch_ok[OF r]
  have t: "new_events w w' = Getmany c batch_size # concat (map (\<lambda>(tp, ms).
         Info (Partition_line tp (length ms)) # map (\<lambda>m. Put rq (val m)) ms
           @ [Info Done_line, Commit c ?ps]) batch)"
    by (simp add: new_events_def)
  have a: "filter (\<lambda>e. is_put e \<or> is_commit e) (new_events w w') =
           concat (map (\<lambda>(tp, ms). map (\<lambda>m. Put rq (val m)) ms @ [Commit c ?ps]) batch)"
    unfolding t by (simp add: filter_concat_parts)
  have b: "commit_after_all_enqueues (new_events w w')" if "length batch \<le> 1"
  proof (cases batch)
    case Nil
    then show ?thesis unfolding t by simp
  next
    case (Cons p rest)
    with that have "rest = []" by simp
    with Cons show ?thesis unfolding t
      by (cases p) (simp add: commit_after_all_enqueues_puts)
  qed
  from a b show ?thesis by simp
qed

theorem receive_cycle_commit_per_partition_witness:
  "poll (example_env (\<lambda>n. 0) (\<lambda>n. Some three_records) 9) (step (example_world [3])) 0 200
     = Some three_records
   \<and> receive_cycle (example_env (\<lambda>n. 0) (\<lambda>n. Some three_records) 9) 0 0 200 (example_world [3])
     = Ok () (world_of (receive_cycle (example_env (\<lambda>n. 0) (\<lambda>n. Some three_records) 9) 0 0 200
                          (example_world [3])))
   \<and> filter (\<lambda>e. is_put e \<or> is_commit e)
       (new_events (example_world [3])
          (world_of (receive_cycle (example_env (\<lambda>n. 0) (\<lambda>n. Some three_records) 9) 0 0 200
                       (example_world [3]))))
     = [Put 0 4, Put 0 5, Put 0 6, Commit 0 [((''reports'', 0), 13)]]
   \<and> commit_after_all_enqueues
       (new_events (example_world [3])
          (world_of (receive_cycle (example_env (\<lambda>n. 0) (\<lambda>n. Some three_records) 9) 0 0 200
                       (example_world [3]))))"
proof -
  let ?E = "example_env (\<lambda>n. 0) (\<lambda>n. Some three_records) 9"
  let ?W = "example_world [3]"
  have h1: "poll ?E (step ?W) 0 200 = Some three_records"
    by (simp add: example_env_def)
  have h2: "receive_cycle ?E 0 0 200 ?W = Ok () (world_of (receive_cycle ?E 0 0 200 ?W))"
    by (simp add: receive_cycle_def consumer_getmany_def consumer_commit_def example_env_def
        example_world_def three_records_def Let_def logger_info_def queue_put_def)
  from receive_cycle_commit_per_partition[OF h1 h2] h1 h2 show ?thesis
    by (simp add: three_records_def example_world_def)
qed

text \<open>
  Claim C4.  A poll that returns three records of one partition at offsets 10, 11 and 12,
  followed by a commit that does not fail: the cycle enqueues the three values in offset
  order and issues exactly one commit call, which records offset 13 for the partition.
  The batch size only bounds what the poll may return, so it is left free.
\<close>

theorem receive_cycle_three_records:
  assumes "poll env (step w) c batch_size =
             Some [(tp, [\<lparr>offset = 10, val = a\<rparr>, \<lparr>offset = 11, val = b\<rparr>, \<lparr>offset = 12, val = d\<rparr>])]"
      and "commit_ok env (Suc (step w)) c"
  shows "\<exists>w' ps. receive_cycle env c rq batch_size w = Ok () w'
           \<and> filter is_put (new_events w w') = [Put rq a, Put rq b, Put rq d]
           \<and> queues w' rq = queues w rq @ [a, b, d]
           \<and> filter is_commit (new_events w w') = [Commit c ps]
           \<and> map_of ps tp = Some 13
           \<and> committed w' c = ps"
  using assms
  by (simp add: receive_cycle_def getmany_ok consumer_commit_def Let_def logger_info_def
        queue_put_def update_conv')

theorem receive_cycle_three_records_witness:
  "poll (example_env (\<lambda>n. 0) (\<lambda>n. Some three_records) 9) (step (example_world [3])) 0 200 =
     Some [((''reports'', 0), [\<lparr>offset = 10, val = 4\<rparr>, \<lparr>offset = 11, val = 5\<rparr>, \<lparr>offset = 12, val = 6\<rparr>])]
   \<and> commit_ok (example_env (\<lambda>n. 0) (\<lambda>n. Some three_records) 9) (Suc (step (example_world [3]))) 0
   \<and> (\<exists>w' ps. receive_cycle (example_env (\<lambda>n. 0) (\<lambda>n. Some three_records) 9) 0 0 200
                 (example_world [3]) = Ok () w'
           \<and> filter is_put (new_events (example_world [3]) w') = [Put 0 4, Put 0 5, Put 0 6]
           \<and> queues w' 0 = queues (example_world [3]) 0 @ [4, 5, 6]
           \<and> filter is_commit (new_events (example_world [3]) w') = [Commit 0 ps]
           \<and> map_of ps (''reports'', 0) = Some 13
           \<and> committed w' 0 = ps)"
proof -
  let ?E = "example_env (\<lambda>n. 0) (\<lambda>n. Some three_records) 9"
  let ?W = "example_world [3]"
  have h1: "poll ?E (step ?W) 0 200 =
     Some [((''reports'', 0), [\<lparr>offset = 10, val = 4\<rparr>, \<lparr>offset = 11, val = 5\<rparr>, \<lparr>offset = 12, val = 6\<rparr>])]"
    by (simp add: example_env_def three_records_def)
  have h2: "commit_ok ?E (Suc (step ?W)) 0"
    by (simp add: example_env_def)
  from receive_cycle_three_records[OF h1 h2, of 0] h1 h2 show ?thesis
    by simp
qed



section \<open>Properties of the outbound relay\<close>

text \<open>Whichever way \<open>log_speed\<close> ends, it has added its call event and at most a log line.\<close>

lemma log_speed_events:
  "\<exists>es. trace (world_of (log_speed env cnt st q topic i w)) = trace w @ Call_log_speed cnt st # es
        \<and> list_all is_info es"
  by (simp add: log_speed_def time_time_def Let_def logger_info_def split: option.split)

text \<open>
  With the default interval of 60 the relay's call of \<open>log_speed\<close> does not divide by
  zero, so it returns whenever the counter converts to a float, as every counter a relay
  can count up to does.
\<close>

lemma log_speed_60:
  assumes "float_of_int cnt \<noteq> None"
  shows "\<exists>st1 w1 es. log_speed env cnt st q topic 60 w = Ok st1 w1
      \<and> trace w1 = trace w @ Call_log_speed cnt st # es \<and> list_all is_info es
      \<and> queues w1 = queues w \<and> in_flight w1 = in_flight w
      \<and> (st1 = (st, cnt) \<or> st1 = (time env (Suc (step w)), 0))"
proof (cases "float_lt_int (float_sub (time env (step w)) st) 60")
  case True
  then show ?thesis
    by (simp add: log_speed_def time_time_def Let_def)
next
  case False
  then have "float_ge_int (float_sub (time env (step w)) st) 60"
    by (rule float_not_lt_ge)
  then have "float_sub (time env (step w)) st \<noteq> Finite 0"
    by (rule float_ge_pos_nonzero[rotated]) simp
  with False assms show ?thesis
    by (auto simp: log_speed_def time_time_def Let_def logger_info_def)
qed



text \<open>
  Claim C2, as stated, fails.  A cycle that finds item 7 at the head of the outbound
  queue awaits \<^verbatim>\<open>producer.send\<close>, which returns when the client has taken the record,
  and does not await the delivery future it gets back: the item is marked done and
  counted with the record still in flight and no acknowledgment received.  The cycle the
  spec describes, which waits for the acknowledgment, marks the item done after it.
\<close>

theorem send_cycle_done_without_acknowledgment:
  "filter (\<lambda>e. is_get e \<or> is_send e \<or> is_acknowledged e \<or> is_task_done e)
     (new_events (example_world [7, 8])
        (world_of (send_cycle (example_env (\<lambda>n. 130 + real n) (\<lambda>n. None) 9) ''reports'' 0 0
                     (100, 5) (example_world [7, 8]))))
   = [Get 0 7, Send 0 ''reports'' 7, Task_done 0]
   \<and> in_flight
       (world_of (send_cycle (example_env (\<lambda>n. 130 + real n) (\<lambda>n. None) 9) ''reports'' 0 0
                    (100, 5) (example_world [7, 8]))) 0
     = [(''reports'', 7)]
   \<and> \<not> acknowledged_before_done
        (new_events (example_world [7, 8])
           (world_of (send_cycle (example_env (\<lambda>n. 130 + real n) (\<lambda>n. None) 9) ''reports'' 0 0
                        (100, 5) (example_world [7, 8]))))
   \<and> filter (\<lambda>e. is_get e \<or> is_send e \<or> is_acknowledged e \<or> is_task_done e)
       (new_events (example_world [7, 8])
          (world_of (spec_send_cycle (example_env (\<lambda>n. 130 + real n) (\<lambda>n. None) 9) ''reports'' 0 0
                       (100, 5) (example_world [7, 8]))))
     = [Get 0 7, Send 0 ''reports'' 7, Acknowledged 0 ''reports'' 7, Task_done 0]
   \<and> acknowledged_before_done
        (new_events (example_world [7, 8])
           (world_of (spec_send_cycle (example_env (\<lambda>n. 130 + real n) (\<lambda>n. None) 9) ''reports'' 0 0
                        (100, 5) (example_world [7, 8]))))"
  using round64_int[of 30]
  by (simp add: send_cycle_def spec_send_cycle_def log_speed_def float_sub_def time_time_def
        Let_def example_env_def example_world_def queue_empty_def queue_get_def
        producer_send_def producer_send_and_wait_def await_delivery_def queue_task_done_def
        new_events_def acknowledged_before_done_def)

text \<open>
  Claim C2, amended.  A cycle that finds an item \<open>m\<close> at the head of the outbound queue
  dequeues it and awaits \<^verbatim>\<open>producer.send\<close>.  If that call returns, the record is in
  flight at the producer, the cycle marks the item done, in this order and once each and
  without waiting for an acknowledgment, and the counter is the one \<open>log_speed\<close> gave
  back plus one.  If the call raises, the cycle raises with the item dequeued and never
  marked done.
\<close>

theorem send_cycle_send_then_done:
  assumes "queues w sq = m # rest" and "float_of_int (snd st) \<noteq> None"
  shows "case send_cycle env topic p sq st w of
           Ok st' w' \<Rightarrow>
             filter (\<lambda>e. is_get e \<or> is_send e \<or> is_acknowledged e \<or> is_task_done e)
               (new_events w w')
               = [Get sq m, Send p topic m, Task_done sq]
             \<and> queues w' sq = rest
             \<and> in_flight w' p = in_flight w p @ [(topic, m)]
             \<and> (\<exists>st1 w1. log_speed env (snd st) (fst st) sq topic 60 w = Ok st1 w1
                    \<and> st' = (fst st1, snd st1 + 1) \<and> send_ok env (step w1) p topic m)
         | Raised e w' \<Rightarrow>
             e = BrokerError
             \<and> filter (\<lambda>e. is_get e \<or> is_send e \<or> is_acknowledged e \<or> is_task_done e)
                 (new_events w w')
                 = [Get sq m]
             \<and> in_flight w' p = in_flight w p
             \<and> (\<exists>st1 w1. log_speed env (snd st) (fst st) sq topic 60 w = Ok st1 w1
                    \<and> \<not> send_ok env (step w1) p topic m)
         | Suspended w' \<Rightarrow> False"
proof -
  obtain st1 w1 es where l: "log_speed env (snd st) (fst st) sq topic 60 w = Ok st1 w1"
    and t: "trace w1 = trace w @ Call_log_speed (snd st) (fst st) # es" "list_all is_info es"
    and q: "queues w1 = queues w" and i: "in_flight w1 = in_flight w"
    using log_speed_60[OF assms(2)] by blast
  have f: "filter (\<lambda>e. is_get e \<or> is_send e \<or> is_acknowledged e \<or> is_task_done e) es = []"
    using t(2) by (induction es) (auto elim: is_info.elims)
  let ?w2 = "w1\<lparr>queues := (queues w1)(sq := rest), trace := trace w1 @ [Get sq m]\<rparr>"
  have g: "queue_get sq w1 = Some (m, ?w2)" "\<not> queue_empty sq w1"
    using assms(1) q by (simp_all add: queue_get_def queue_empty_def)
  show ?thesis
  proof (cases "send_ok env (step w1) p topic m")
    case True
    then show ?thesis
      using l g t f i
      by (simp add: send_cycle_def producer_send_def Let_def queue_task_done_def new_events_def)
  next
    case False
    then show ?thesis
      using l g t f i
      by (simp add: send_cycle_def producer_send_def Let_def queue_task_done_def new_events_def)
  qed
qed

theorem send_cycle_send_then_done_witness:
  "queues (example_world [7, 8]) 0 = 7 # [8]
   \<and> float_of_int (snd (100 :: real, 5 :: int)) \<noteq> None
   \<and> (\<exists>w'. send_cycle (example_env (\<lambda>n. 130 + real n) (\<lambda>n. None) 9) ''reports'' 0 0 (100, 5)
              (example_world [7, 8]) = Ok (100, 6) w'
          \<and> filter (\<lambda>e. is_get e \<or> is_send e \<or> is_acknowledged e \<or> is_task_done e)
              (new_events (example_world [7, 8]) w')
              = [Get 0 7, Send 0 ''reports'' 7, Task_done 0]
          \<and> in_flight w' 0 = in_flight (example_world [7, 8]) 0 @ [(''reports'', 7)])"
proof -
  let ?E = "example_env (\<lambda>n. 130 + real n) (\<lambda>n. None) 9"
  let ?W = "example_world [7, 8]"
  have h: "queues ?W 0 = 7 # [8]"
    by (simp add: example_world_def)
  have k: "float_of_int (snd (100 :: real, 5 :: int)) \<noteq> None"
    using round64_int[of 5] by (simp add: float_of_int_def)
  obtain w' where c: "send_cycle ?E ''reports'' 0 0 (100, 5) ?W = Ok (100, 6) w'"
    using round64_int[of 30]
    by (simp add: send_cycle_def log_speed_def float_sub_def time_time_def Let_def example_env_def
          example_world_def queue_empty_def queue_get_def producer_send_def queue_task_done_def)
  from send_cycle_send_then_done[OF h k, where env = ?E and topic = "''reports''" and p = 0]
  have "filter (\<lambda>e. is_get e \<or> is_send e \<or> is_acknowledged e \<or> is_task_done e)
          (new_events ?W w') = [Get 0 7, Send 0 ''reports'' 7, Task_done 0]
        \<and> in_flight w' 0 = in_flight ?W 0 @ [(''reports'', 7)]"
    by (simp add: c)
  with h k c show ?thesis by blast
qed

section \<open>Who calls the Speed Monitor\<close>

lemma no_call_info: "list_all is_info es \<Longrightarrow> filter is_call es = []"
  by (induction es) (auto elim: is_info.elims)

lemma no_call_inbound:
  "list_all (\<lambda>e. is_info e \<or> is_put e \<or> is_commit e) es \<Longrightarrow> filter is_call es = []"
  by (induction es) (auto elim: is_info.elims is_put.elims is_commit.elims)

lemma log_speed_queues: "queues (world_of (log_speed env cnt st q topic i w)) = queues w"
  by (simp add: log_speed_def time_time_def Let_def logger_info_def split: option.split)

lemma log_speed_returns_or_raises: "log_speed env cnt st q topic i w \<noteq> Suspended w'"
  by (simp add: log_speed_def time_time_def Let_def logger_info_def split: option.split)

lemma send_cycle_calls:
  "filter is_call (new_events w (world_of (send_cycle env topic p sq st w)))
     = [Call_log_speed (snd st) (fst st)]"
proof -
  let ?l = "log_speed env (snd st) (fst st) sq topic 60 w"
  obtain es where t: "trace (world_of ?l) = trace w @ Call_log_speed (snd st) (fst st) # es"
      "list_all is_info es"
    using log_speed_events by blast
  from t(2) have f: "filter is_call es = []" by (rule no_call_info)
  show ?thesis
  proof (cases ?l)
    case (Ok st1 w1)
    with t(1) f show ?thesis
      by (simp add: send_cycle_def queue_get_def producer_send_def Let_def queue_task_done_def
            sleep_def new_events_def split: list.split)
  next
    case (Raised e w1)
    with t(1) f show ?thesis
      by (simp add: send_cycle_def new_events_def)
  next
    case (Suspended w1)
    with t(1) f show ?thesis
      by (simp add: send_cycle_def new_events_def)
  qed
qed

lemma produce_cycle_eq:
  "produce_cycle env self topic st w = send_cycle env topic (producer self) (send_queue self) st w"
  by (simp add: produce_cycle_def send_cycle_def)

lemma receive_cycle_calls:
  "filter is_call (new_events w (world_of (receive_cycle env c rq batch_size w))) = []"
proof (cases "poll env (step w) c batch_size")
  case None
  then show ?thesis
    by (simp add: receive_cycle_def consumer_getmany_def Let_def new_events_def)
next
  case (Some batch)
  let ?w1 = "w\<lparr>step := Suc (step w),
                 positions := (positions w)(c := fetch_positions batch (positions w c)),
                 trace := trace w @ [Getmany c batch_size]\<rparr>"
  obtain es where es: "trace (world_of (receive_batch env c rq batch ?w1)) = trace ?w1 @ es"
      "list_all (\<lambda>e. is_info e \<or> is_put e \<or> is_commit e) es"
    using receive_batch_events by blast
  from es(2) have "filter is_call es = []" by (rule no_call_inbound)
  with es(1) Some show ?thesis
    by (simp add: receive_cycle_def getmany_ok new_events_def)
qed

lemma consume_batch_events:
  "\<exists>es. trace (world_of (consume_batch env self batch w)) = trace w @ es
        \<and> list_all (\<lambda>e. is_info e \<or> is_put e \<or> is_commit e) es"
proof (induction batch arbitrary: w)
  case Nil
  then show ?case by simp
next
  case (Cons a batch)
  obtain tp ms where a: "a = (tp, ms)" by (cases a)
  let ?w1 = "gather_put (receive_queue self) (map val ms) w"
  have t1: "trace ?w1 = trace w @ map (Put (receive_queue self)) (map val ms)"
    by (simp add: gather_put_eq)
  show ?case
  proof (cases "commit_ok env (step ?w1) (consumer self)")
    case False
    then show ?thesis unfolding a
      by (simp add: Let_def consumer_commit_def gather_put_eq list_all_iff)
  next
    case True
    let ?w2 = "?w1\<lparr>step := Suc (step ?w1),
                    committed := (committed ?w1)(consumer self := positions ?w1 (consumer self)),
                    trace := trace ?w1 @ [Commit (consumer self) (positions ?w1 (consumer self))]\<rparr>"
    let ?w3 = "logger_info (Partition_line tp (length ms)) ?w2"
    from True have c: "consumer_commit env (consumer self) ?w1 = Ok () ?w2"
      by (simp add: consumer_commit_def Let_def)
    from Cons.IH[of ?w3] obtain es where
      es: "trace (world_of (consume_batch env self batch ?w3)) = trace ?w3 @ es"
          "list_all (\<lambda>e. is_info e \<or> is_put e \<or> is_commit e) es" by blast
    have "consume_batch env self (a # batch) w = consume_batch env self batch ?w3"
      unfolding a using c by (simp add: Let_def)
    with es t1 show ?thesis
      by (simp add: list_all_iff logger_info_def) auto
  qed
qed

lemma consume_cycle_calls:
  "filter is_call (new_events w (world_of (consume_cycle env self batch_size w))) = []"
proof (cases "poll env (step w) (consumer self) batch_size")
  case None
  then show ?thesis
    by (simp add: consume_cycle_def consumer_getmany_def Let_def new_events_def)
next
  case (Some batch)
  let ?c = "consumer self"
  let ?w1 = "w\<lparr>step := Suc (step w),
                 positions := (positions w)(?c := fetch_positions batch (positions w ?c)),
                 trace := trace w @ [Getmany ?c batch_size]\<rparr>"
  obtain es where es: "trace (world_of (consume_batch env self batch ?w1)) = trace ?w1 @ es"
      "list_all (\<lambda>e. is_info e \<or> is_put e \<or> is_commit e) es"
    using consume_batch_events by blast
  from es(2) have "filter is_call es = []" by (rule no_call_inbound)
  with es(1) Some show ?thesis
    by (simp add: consume_cycle_def getmany_ok new_events_def)
qed

text \<open>
  Claim C8, as stated, fails for the inbound relay.  Neither \<open>receive_messages\<close> nor
  \<open>consume_messages\<close> keeps a counter or a window start, and a cycle of theirs that
  relays three records makes no call of \<open>log_speed\<close>.
\<close>

theorem receive_cycle_never_calls_log_speed:
  "length (filter is_call
     (new_events (example_world [])
        (world_of (receive_cycle (example_env (\<lambda>n. 0) (\<lambda>n. Some three_records) 9) 0 0 200
                     (example_world []))))) = 0
   \<and> length (filter is_call
     (new_events (example_world [])
        (world_of (consume_cycle (example_env (\<lambda>n. 0) (\<lambda>n. Some three_records) 9)
                     example_engine 200 (example_world []))))) = 0"
  by (simp add: receive_cycle_def consume_cycle_def consumer_getmany_def consumer_commit_def
        example_env_def example_world_def example_engine_def three_records_def Let_def
        logger_info_def queue_put_def new_events_def)

text \<open>
  Claim C8, amended.  Only the outbound relay invokes the Speed Monitor.  Each cycle of
  \<open>send_messages\<close> and of \<open>produce_messages\<close> makes exactly one call, with the relay's
  own counter and window start, and adopts the pair it returns as its state (with the
  counter incremented when an item was sent); should the call raise, the cycle raises
  with it.  A cycle of the inbound relay, in either implementation, makes no call.
\<close>

theorem log_speed_called_by_outbound_only:
  "filter is_call (new_events w (world_of (send_cycle env topic p sq st w)))
     = [Call_log_speed (snd st) (fst st)]
   \<and> filter is_call (new_events w (world_of (produce_cycle env self topic st w)))
     = [Call_log_speed (snd st) (fst st)]
   \<and> (case log_speed env (snd st) (fst st) sq topic 60 w of
         Ok st1 w1 \<Rightarrow>
           (case send_cycle env topic p sq st w of
              Ok st' w' \<Rightarrow> st' = (if queue_empty sq w then st1 else (fst st1, snd st1 + 1))
            | Raised e w' \<Rightarrow> True
            | Suspended w' \<Rightarrow> False)
       | Raised e w1 \<Rightarrow> send_cycle env topic p sq st w = Raised e w1
       | Suspended w1 \<Rightarrow> False)
   \<and> filter is_call (new_events w (world_of (receive_cycle env c rq batch_size w))) = []
   \<and> filter is_call (new_events w (world_of (consume_cycle env self batch_size w))) = []"
proof -
  let ?l = "log_speed env (snd st) (fst st) sq topic 60 w"
  have "case ?l of
         Ok st1 w1 \<Rightarrow>
           (case send_cycle env topic p sq st w of
              Ok st' w' \<Rightarrow> st' = (if queue_empty sq w then st1 else (fst st1, snd st1 + 1))
            | Raised e w' \<Rightarrow> True
            | Suspended w' \<Rightarrow> False)
       | Raised e w1 \<Rightarrow> send_cycle env topic p sq st w = Raised e w1
       | Suspended w1 \<Rightarrow> False"
  proof (cases ?l)
    case (Ok st1 w1)
    with log_speed_queues[of env "snd st" "fst st" sq topic 60 w]
    have q: "queues w1 = queues w" by simp
    with Ok show ?thesis
      by (simp add: send_cycle_def queue_empty_def queue_get_def producer_send_def Let_def
            split: list.split)
  next
    case (Raised e w1)
    then show ?thesis by (simp add: send_cycle_def)
  next
    case (Suspended w1)
    with log_speed_returns_or_raises show ?thesis by blast
  qed
  then show ?thesis
    by (simp add: send_cycle_calls produce_cycle_eq receive_cycle_calls consume_cycle_calls)
qed

section \<open>The module-level relays and the engine's methods\<close>

text \<open>
  The broker client and the queue never look at the log, so running them on a world
  without its log lines gives the same result without its log lines.
\<close>

lemma without_info_logger_info [simp]: "without_info (logger_info l w) = without_info w"
  by (simp add: without_info_def logger_info_def)

lemma without_info_gather_put:
  "without_info (gather_put q xs w) = gather_put q xs (without_info w)"
  by (simp add: without_info_def gather_put_eq filter_map comp_def)

lemma commit_without_info:
  "result_without_info (consumer_commit env c w) = consumer_commit env c (without_info w)"
  by (simp add: consumer_commit_def without_info_def Let_def)

lemma getmany_without_info:
  "result_without_info (consumer_getmany env c k w) = consumer_getmany env c k (without_info w)"
  by (simp add: consumer_getmany_def without_info_def Let_def split: option.split)

lemma step_without_info: "without_info w1 = without_info w2 \<Longrightarrow> step w1 = step w2"
  by (metis (no_types) without_info_def world.select_convs(5) world.surjective world.update_convs(4))

lemma batch_without_info:
  "without_info w1 = without_info w2 \<Longrightarrow>
   result_without_info (consume_batch env self batch w1)
     = result_without_info (receive_batch env (consumer self) (receive_queue self) batch w2)"
proof (induction batch arbitrary: w1 w2)
  case Nil
  then show ?case by simp
next
  case (Cons a batch)
  obtain tp ms where a: "a = (tp, ms)" by (cases a)
  let ?c = "consumer self" and ?rq = "receive_queue self"
  let ?a1 = "gather_put ?rq (map val ms) w1"
  let ?a2 = "logger_info Done_line
               (gather_put ?rq (map val ms) (logger_info (Partition_line tp (length ms)) w2))"
  have e: "without_info ?a1 = without_info ?a2"
    using Cons.prems by (simp add: without_info_gather_put)
  have r: "result_without_info (consumer_commit env ?c ?a1)
             = result_without_info (consumer_commit env ?c ?a2)"
    by (simp only: commit_without_info e)
  show ?case
  proof (cases "consumer_commit env ?c ?a1")
    case (Ok u v1)
    with r obtain v2 where v2: "consumer_commit env ?c ?a2 = Ok u v2"
        "without_info v1 = without_info v2"
      by (cases "consumer_commit env ?c ?a2") auto
    have "without_info (logger_info (Partition_line tp (length ms)) v1) = without_info v2"
      using v2(2) by simp
    from Cons.IH[OF this] Ok v2(1) show ?thesis
      unfolding a by (simp add: Let_def)
  next
    case (Raised x v1)
    with r obtain v2 where "consumer_commit env ?c ?a2 = Raised x v2"
        "without_info v1 = without_info v2"
      by (cases "consumer_commit env ?c ?a2") auto
    with Raised show ?thesis
      unfolding a by (simp add: Let_def)
  next
    case (Suspended v1)
    with r obtain v2 where "consumer_commit env ?c ?a2 = Suspended v2"
        "without_info v1 = without_info v2"
      by (cases "consumer_commit env ?c ?a2") auto
    with Suspended show ?thesis
      unfolding a by (simp add: Let_def)
  qed
qed

lemma cycle_without_info:
  assumes "without_info w1 = without_info w2"
  shows "result_without_info (consume_cycle env self k w1)
     = result_without_info (receive_cycle env (consumer self) (receive_queue self) k w2)"
proof -
  let ?c = "consumer self"
  have r: "result_without_info (consumer_getmany env ?c k w1)
             = result_without_info (consumer_getmany env ?c k w2)"
    by (simp only: getmany_without_info assms)
  show ?thesis
  proof (cases "consumer_getmany env ?c k w1")
    case (Ok b v1)
    with r obtain v2 where v2: "consumer_getmany env ?c k w2 = Ok b v2"
        "without_info v1 = without_info v2"
      by (cases "consumer_getmany env ?c k w2") auto
    from batch_without_info[OF v2(2)] Ok v2(1) show ?thesis
      by (simp add: consume_cycle_def receive_cycle_def)
  next
    case (Raised x v1)
    with r obtain v2 where "consumer_getmany env ?c k w2 = Raised x v2"
        "without_info v1 = without_info v2"
      by (cases "consumer_getmany env ?c k w2") auto
    with Raised show ?thesis
      by (simp add: consume_cycle_def receive_cycle_def)
  next
    case (Suspended v1)
    with r obtain v2 where "consumer_getmany env ?c k w2 = Suspended v2"
        "without_info v1 = without_info v2"
      by (cases "consumer_getmany env ?c k w2") auto
    with Suspended show ?thesis
      by (simp add: consume_cycle_def receive_cycle_def)
  qed
qed

lemma messages_without_info:
  "without_info w1 = without_info w2 \<Longrightarrow>
   map_option result_without_info (consume_messages fuel env self ev k w1)
     = map_option result_without_info
         (receive_messages fuel env (consumer self) (receive_queue self) ev k w2)"
proof (induction fuel arbitrary: w1 w2)
  case 0
  then show ?case by simp
next
  case (Suc fuel)
  from Suc.prems have s: "step w1 = step w2" by (rule step_without_info)
  show ?case
  proof (cases "is_set env ev (step w2)")
    case True
    with s Suc.prems show ?thesis by simp
  next
    case False
    let ?r1 = "consume_cycle env self k w1"
    let ?r2 = "receive_cycle env (consumer self) (receive_queue self) k w2"
    have r: "result_without_info ?r1 = result_without_info ?r2"
      using Suc.prems by (rule cycle_without_info)
    show ?thesis
    proof (cases ?r1)
      case (Ok u v1)
      with r obtain v2 where v2: "?r2 = Ok u v2" "without_info v1 = without_info v2"
        by (cases ?r2) auto
      from Suc.IH[OF v2(2)] Ok v2(1) False s show ?thesis by simp
    next
      case (Raised x v1)
      with r obtain v2 where "?r2 = Raised x v2" "without_info v1 = without_info v2"
        by (cases ?r2) auto
      with Raised False s show ?thesis by simp
    next
      case (Suspended v1)
      with r obtain v2 where "?r2 = Suspended v2" "without_info v1 = without_info v2"
        by (cases ?r2) auto
      with Suspended False s show ?thesis by simp
    qed
  qed
qed

lemma produce_loop_eq:
  "produce_loop fuel env self ev topic st w
     = send_loop fuel env topic (producer self) (send_queue self) ev st w"
  by (induction fuel arbitrary: st w) (simp_all add: produce_cycle_eq split: result.split)

text \<open>
  Claim C9, as stated, fails for the inbound pair.  One poll of three records, then
  shutdown: \<open>receive_messages\<close> logs the partition line before it enqueues and a
  \<^verbatim>\<open>"done"\<close> line before it commits; \<open>consume_messages\<close> logs the partition line
  after the commit and has no \<^verbatim>\<open>"done"\<close> line.
\<close>

theorem receive_and_consume_differ:
  "map_option (\<lambda>r. trace (world_of r))
     (receive_messages (Suc (Suc 0)) (example_env (\<lambda>n. 0) (\<lambda>n. Some three_records) 2)
        (consumer example_engine) (receive_queue example_engine) 1 200 (example_world []))
   = Some [Getmany 0 200, Info (Partition_line (''reports'', 0) 3), Put 0 4, Put 0 5, Put 0 6,
           Info Done_line, Commit 0 [((''reports'', 0), 13)], Info Shutdown_line]
   \<and> map_option (\<lambda>r. trace (world_of r))
     (consume_messages (Suc (Suc 0)) (example_env (\<lambda>n. 0) (\<lambda>n. Some three_records) 2)
        example_engine 1 200 (example_world []))
   = Some [Getmany 0 200, Put 0 4, Put 0 5, Put 0 6, Commit 0 [((''reports'', 0), 13)],
           Info (Partition_line (''reports'', 0) 3), Info Shutdown_line]
   \<and> receive_messages (Suc (Suc 0)) (example_env (\<lambda>n. 0) (\<lambda>n. Some three_records) 2)
        (consumer example_engine) (receive_queue example_engine) 1 200 (example_world [])
     \<noteq> consume_messages (Suc (Suc 0)) (example_env (\<lambda>n. 0) (\<lambda>n. Some three_records) 2)
        example_engine 1 200 (example_world [])"
  by (simp add: receive_cycle_def consume_cycle_def consumer_getmany_def consumer_commit_def
        example_env_def example_world_def example_engine_def three_records_def Let_def
        logger_info_def queue_put_def)

text \<open>
  Claim C9, amended.  On the engine's own handles \<open>produce_messages\<close> is
  \<open>send_messages\<close>, in every respect.  \<open>consume_messages\<close> and \<open>receive_messages\<close>
  agree on everything but the log: they end the same way, with the same queues, the same
  consumer positions and committed offsets, and the same polls, enqueues and commits in
  the same order.
\<close>

theorem relays_same_up_to_logging:
  "produce_messages fuel env self ev topic w
     = send_messages fuel env topic (producer self) (send_queue self) ev w
   \<and> map_option result_without_info (consume_messages fuel env self ev batch_size w)
     = map_option result_without_info
         (receive_messages fuel env (consumer self) (receive_queue self) ev batch_size w)"
  by (simp add: produce_messages_def send_messages_def produce_loop_eq messages_without_info)

end
